theory Spec2Isabelle
  imports Main "HOL-Library.Word" "HOL-Library.Sublist"
begin

unbundle bit_operations_syntax

section \<open>The byte queue of bq.h\<close>

text \<open>
  The queue is the C struct \<^verbatim>\<open>bq\<close>. \<^verbatim>\<open>size_t\<close> is taken as a 64-bit unsigned
  integer (the code shifts a \<^verbatim>\<open>size_t\<close> by 32 and builds the mask from \<^verbatim>\<open>1UL\<close>),
  \<^verbatim>\<open>unsigned char\<close> as an 8-bit one. The field \<^verbatim>\<open>data\<close> is a pointer: an address,
  with 0 for the null pointer; the bytes it points to live in a separate memory.
  The field \<^verbatim>\<open>mask\<close> is named \<open>mask_bq\<close> here, since \<open>mask\<close> is a constant of
  the bit-operations library.
\<close>

type_synonym size_t = "64 word"
type_synonym uchar = "8 word"
type_synonym addr = "64 word"
type_synonym byte = "8 word"

record bq =
  head :: size_t
  tail :: size_t
  mask_bq :: size_t
  cap_lg2 :: uchar
  data :: addr

text \<open>The compound literal \<^verbatim>\<open>(bq){0}\<close>: every field zero, the data pointer null.\<close>

definition bq_zero :: bq where
  "bq_zero = \<lparr>head = 0, tail = 0, mask_bq = 0, cap_lg2 = 0, data = 0\<rparr>"

text \<open>
  \<^verbatim>\<open>bq_make\<close>: the guard on a null buffer or a zero length, then the binary search
  for the most significant set bit of \<^verbatim>\<open>len\<close>, each \<^verbatim>\<open>if\<close> of the source one
  binding of the pair (len, msb); the last \<^verbatim>\<open>if\<close> leaves \<^verbatim>\<open>len\<close> as it is.
\<close>

definition bq_make :: "addr \<Rightarrow> size_t \<Rightarrow> bq" where
  "bq_make buf len =
    (if buf = 0 \<or> len = 0 then bq_zero
     else
       let msb = (0 :: uchar);
           (len, msb) = (if drop_bit 32 len \<noteq> 0 then (drop_bit 32 len, msb + 32) else (len, msb));
           (len, msb) = (if drop_bit 16 len \<noteq> 0 then (drop_bit 16 len, msb + 16) else (len, msb));
           (len, msb) = (if drop_bit 8 len \<noteq> 0 then (drop_bit 8 len, msb + 8) else (len, msb));
           (len, msb) = (if drop_bit 4 len \<noteq> 0 then (drop_bit 4 len, msb + 4) else (len, msb));
           (len, msb) = (if drop_bit 2 len \<noteq> 0 then (drop_bit 2 len, msb + 2) else (len, msb));
           msb = (if drop_bit 1 len \<noteq> 0 then msb + 1 else msb)
       in \<lparr>head = 0, tail = 0, mask_bq = push_bit (unat msb) 1 - 1,
           cap_lg2 = msb, data = buf\<rparr>)"

text \<open>
  \<^verbatim>\<open>bq_popbuf\<close> and \<^verbatim>\<open>bq_pushbuf\<close> take the queue by pointer and give back a
  pointer and, through \<^verbatim>\<open>*len\<close>, a length. The model returns the queue as the call
  leaves it, the pointer and the length. The atomic loads are plain reads here.
\<close>

definition bq_popbuf :: "bq \<Rightarrow> bq \<times> addr \<times> size_t" where
  "bq_popbuf q =
    (let tl = tail q;
         cond = (drop_bit (unat (cap_lg2 q)) tl - drop_bit (unat (cap_lg2 q)) (head q)) AND 1;
         len = tl - head q - (tl AND mask_bq q) * cond
     in (q, data q + (head q AND mask_bq q), len))"

definition bq_pop :: "bq \<Rightarrow> size_t \<Rightarrow> bq" where
  "bq_pop q count = q\<lparr>head := head q + count\<rparr>"

definition bq_pushbuf :: "bq \<Rightarrow> bq \<times> addr \<times> size_t" where
  "bq_pushbuf q =
    (let hd = head q;
         cond = (drop_bit (unat (cap_lg2 q)) (tail q) - drop_bit (unat (cap_lg2 q)) hd) AND 1;
         len = mask_bq q + 1 - (tail q - hd) - (hd AND mask_bq q) * (1 - cond)
     in (q, data q + (tail q AND mask_bq q), len))"

definition bq_push :: "bq \<Rightarrow> size_t \<Rightarrow> bq" where
  "bq_push q count = q\<lparr>tail := tail q + count\<rparr>"

text \<open>The length stored in \<^verbatim>\<open>*len\<close> and the pointer returned.\<close>

definition pop_len :: "bq \<Rightarrow> size_t" where
  "pop_len q = snd (snd (bq_popbuf q))"

definition pop_ptr :: "bq \<Rightarrow> addr" where
  "pop_ptr q = fst (snd (bq_popbuf q))"

definition push_len :: "bq \<Rightarrow> size_t" where
  "push_len q = snd (snd (bq_pushbuf q))"

definition push_ptr :: "bq \<Rightarrow> addr" where
  "push_ptr q = fst (snd (bq_pushbuf q))"

subsection \<open>Well-formed queues and the invariant I1\<close>

text \<open>
  A queue is well formed when its capacity \<open>mask + 1\<close> is \<open>2 ^ cap_lg2\<close>, a power of
  two that a \<^verbatim>\<open>size_t\<close> holds. I1 bounds the number of bytes in the queue by the
  capacity, the difference of the cursors taken modulo \<open>2 ^ 64\<close>.
\<close>

definition capacity :: "bq \<Rightarrow> size_t" where
  "capacity q = mask_bq q + 1"

definition bq_wf :: "bq \<Rightarrow> bool" where
  "bq_wf q \<longleftrightarrow> unat (cap_lg2 q) < 64 \<and> mask_bq q = push_bit (unat (cap_lg2 q)) 1 - 1"

definition I1 :: "bq \<Rightarrow> bool" where
  "I1 q \<longleftrightarrow> tail q - head q \<le> capacity q"

text \<open>
  The same quantities as natural numbers: the capacity, the number of bytes in the
  queue, and the offsets in the storage of the next byte to read and to write.
\<close>

definition cap :: "bq \<Rightarrow> nat" where
  "cap q = 2 ^ unat (cap_lg2 q)"

definition used :: "bq \<Rightarrow> nat" where
  "used q = unat (tail q - head q)"

definition rd_off :: "bq \<Rightarrow> nat" where
  "rd_off q = unat (head q) mod cap q"

definition wr_off :: "bq \<Rightarrow> nat" where
  "wr_off q = unat (tail q) mod cap q"

subsection \<open>The search for the most significant bit\<close>

text \<open>
  The state of the search in \<^verbatim>\<open>bq_make\<close> is the pair of \<^verbatim>\<open>len\<close> and \<^verbatim>\<open>msb\<close>.
  Before the step that tests \<^verbatim>\<open>len >> k\<close>, the current \<^verbatim>\<open>len\<close> is the given length
  shifted right by \<^verbatim>\<open>msb\<close>, it is not zero and it has at most \<open>2 * k\<close> bits.
\<close>

definition msb_inv :: "size_t \<Rightarrow> nat \<Rightarrow> size_t \<times> uchar \<Rightarrow> bool" where
  "msb_inv L j s \<longleftrightarrow>
     drop_bit (unat (snd s)) L = fst s \<and> fst s \<noteq> 0 \<and> unat (fst s) < 2 ^ j \<and> unat (snd s) + j \<le> 64"

section \<open>One producer and one consumer\<close>

text \<open>
  The queue does not own its storage: \<^verbatim>\<open>data\<close> points into the memory of the
  program, a function from addresses to bytes. The producer calls \<^verbatim>\<open>bq_pushbuf\<close>,
  writes bytes into the slice it got and commits a count with \<^verbatim>\<open>bq_push\<close>; the
  consumer calls \<^verbatim>\<open>bq_popbuf\<close>, reads the slice it got and commits a count with
  \<^verbatim>\<open>bq_pop\<close>. A sequential interleaving of the two threads is a list of events.
  Each thread remembers the pointer and the length of its last buf call until it
  commits. An event that breaks the contract of the header (a commit with no buf call
  before it, a count or an index beyond the returned length) has no successor state.
  The lists \<open>produced\<close> and \<open>consumed\<close> are the history: the bytes found in the
  producer's slice at each commit, and the bytes found in the consumer's slice at each
  commit.
\<close>

record sys =
  queue :: bq
  mem :: "addr \<Rightarrow> byte"
  wbuf :: "(addr \<times> size_t) option"
  rbuf :: "(addr \<times> size_t) option"
  produced :: "byte list"
  consumed :: "byte list"

datatype event = PushBuf | Write size_t byte | Push size_t | PopBuf | Pop size_t

definition slice :: "(addr \<Rightarrow> byte) \<Rightarrow> addr \<Rightarrow> size_t \<Rightarrow> byte list" where
  "slice m p n = map (\<lambda>i. m (p + of_nat i)) [0..<unat n]"

fun step :: "event \<Rightarrow> sys \<Rightarrow> sys option" where
  "step PushBuf s =
     (case bq_pushbuf (queue s) of (q', p, l) \<Rightarrow> Some (s\<lparr>queue := q', wbuf := Some (p, l)\<rparr>))"
| "step (Write i b) s =
     (case wbuf s of None \<Rightarrow> None
      | Some (p, l) \<Rightarrow> if i < l then Some (s\<lparr>mem := (mem s)(p + i := b)\<rparr>) else None)"
| "step (Push n) s =
     (case wbuf s of None \<Rightarrow> None
      | Some (p, l) \<Rightarrow>
          if n \<le> l
          then Some (s\<lparr>queue := bq_push (queue s) n, wbuf := None,
                       produced := produced s @ slice (mem s) p n\<rparr>)
          else None)"
| "step PopBuf s =
     (case bq_popbuf (queue s) of (q', p, l) \<Rightarrow> Some (s\<lparr>queue := q', rbuf := Some (p, l)\<rparr>))"
| "step (Pop n) s =
     (case rbuf s of None \<Rightarrow> None
      | Some (p, l) \<Rightarrow>
          if n \<le> l
          then Some (s\<lparr>queue := bq_pop (queue s) n, rbuf := None,
                       consumed := consumed s @ slice (mem s) p n\<rparr>)
          else None)"

fun run :: "event list \<Rightarrow> sys \<Rightarrow> sys option" where
  "run [] s = Some s"
| "run (e # es) s = (case step e s of None \<Rightarrow> None | Some s' \<Rightarrow> run es s')"

text \<open>
  The start of a run: neither thread holds a slice, nothing is consumed, and the bytes
  that the queue holds at the start (none, right after \<^verbatim>\<open>bq_make\<close>) count as
  produced before.
\<close>

definition contents :: "bq \<Rightarrow> (addr \<Rightarrow> byte) \<Rightarrow> byte list" where
  "contents q m = map (\<lambda>i. m (data q + of_nat ((rd_off q + i) mod cap q))) [0..<used q]"

definition init :: "bq \<Rightarrow> (addr \<Rightarrow> byte) \<Rightarrow> sys" where
  "init q m = \<lparr>queue = q, mem = m, wbuf = None, rbuf = None,
                produced = contents q m, consumed = []\<rparr>"

text \<open>
  The invariant of the system: the queue is well formed and satisfies I1; the bytes
  produced and not yet consumed are as many as the queue holds and lie in the storage
  from the read offset on, modulo the capacity; the consumed bytes are the first
  produced ones; the producer's slice starts at the write offset and stays within the
  free space and within the storage; the consumer's slice starts at the read offset
  and stays within the bytes held and within the storage.
\<close>

definition sys_inv :: "sys \<Rightarrow> bool" where
  "sys_inv s \<longleftrightarrow>
     bq_wf (queue s) \<and> I1 (queue s) \<and>
     length (produced s) = length (consumed s) + used (queue s) \<and>
     take (length (consumed s)) (produced s) = consumed s \<and>
     (\<forall>i < used (queue s).
        mem s (data (queue s) + of_nat ((rd_off (queue s) + i) mod cap (queue s))) =
        produced s ! (length (consumed s) + i)) \<and>
     (\<forall>p l. wbuf s = Some (p, l) \<longrightarrow>
        p = data (queue s) + of_nat (wr_off (queue s)) \<and>
        unat l \<le> cap (queue s) - used (queue s) \<and>
        wr_off (queue s) + unat l \<le> cap (queue s)) \<and>
     (\<forall>p l. rbuf s = Some (p, l) \<longrightarrow>
        p = data (queue s) + of_nat (rd_off (queue s)) \<and>
        unat l \<le> used (queue s) \<and>
        rd_off (queue s) + unat l \<le> cap (queue s))"

section \<open>Arithmetic of the cursors\<close>

lemma div_step_nat:
  fixes H U C :: nat
  assumes "0 < C" "U \<le> C"
  shows "(H + U) div C = H div C + (if H mod C + U < C then 0 else 1)"
proof -
  have c: "C \<noteq> 0" using assms(1) by simp
  have "H + U = (H mod C + U) + (H div C) * C" by simp
  moreover have "((H mod C + U) + (H div C) * C) div C = H div C + (H mod C + U) div C"
    by (rule div_mult_self1 [OF c])
  ultimately have split: "(H + U) div C = H div C + (H mod C + U) div C" by (simp only:)
  have "(H mod C + U) div C = (if H mod C + U < C then 0 else 1)"
  proof (cases "H mod C + U < C")
    case True
    then show ?thesis by simp
  next
    case False
    have "H mod C < C" using assms(1) by simp
    then have less: "H mod C + U - C < C" using assms(2) by arith
    have e: "H mod C + U = (H mod C + U - C) + C" using False by arith
    have "((H mod C + U - C) + C) div C = (H mod C + U - C) div C + 1"
      by (rule div_add_self2 [OF c])
    also have "\<dots> = 1" using less by simp
    finally have "(H mod C + U) div C = 1" using e by (simp only:)
    then show ?thesis using False by simp
  qed
  then show ?thesis using split by (simp only:)
qed

lemma mod_step_nat:
  fixes H U C :: nat
  assumes "0 < C" "U \<le> C"
  shows "(H + U) mod C = (if H mod C + U < C then H mod C + U else H mod C + U - C)"
proof -
  have e: "(H + U) mod C = (H mod C + U) mod C" by (simp add: mod_add_left_eq)
  show ?thesis
  proof (cases "H mod C + U < C")
    case True
    then show ?thesis using e by simp
  next
    case False
    have "H mod C < C" using assms(1) by simp
    then have less: "H mod C + U - C < C" using assms(2) by arith
    have d: "H mod C + U = (H mod C + U - C) + C" using False by arith
    have "((H mod C + U - C) + C) mod C = (H mod C + U - C) mod C"
      by (rule mod_add_self2)
    also have "\<dots> = H mod C + U - C" using less by simp
    finally have "(H mod C + U) mod C = H mod C + U - C" using d by (simp only:)
    then show ?thesis using e False by simp
  qed
qed

lemma epoch_parity_nat:
  fixes H U C E :: nat
  assumes "0 < C" "even E" "U \<le> C"
  shows "(even (((H + U) mod (C * E)) div C) = even (H div C)) \<longleftrightarrow> H mod C + U < C"
proof -
  have "((H + U) mod (C * E)) div C = ((H + U) div C) mod E"
    using assms(1) by (simp add: mod_mult2_eq)
  moreover have "even (((H + U) div C) mod E) = even ((H + U) div C)"
    using assms(2) by (simp add: dvd_mod_iff)
  ultimately show ?thesis
    using div_step_nat [OF assms(1) assms(3), of H] by simp
qed

lemma unat_and_mask_mod: "unat ((w::'a::len word) AND mask n) = unat w mod 2 ^ n"
proof -
  have "unat (take_bit n w) = take_bit n (unat w)" by (rule unsigned_take_bit_eq)
  then show ?thesis by (simp add: take_bit_eq_mask [symmetric] take_bit_nat_def)
qed

lemma even_unat_word: "even (unat (w :: 'a::len word)) = even w"
proof -
  have "even (word_of_nat (unat w) :: 'a word) = even (unat w)" by (rule even_of_nat)
  then show ?thesis by simp
qed

lemma and_one_parity: "(x - y) AND (1::'a::len word) = (if even x = even y then 0 else 1)"
  by (simp add: and_one_eq mod_2_eq_odd)

lemma unat_drop_bit_div: "unat (drop_bit n (w :: 'a::len word)) = unat w div 2 ^ n"
proof -
  have "unat (drop_bit n w) = drop_bit n (unat w)" by (rule unat_drop_bit_eq)
  also have "\<dots> = unat w div 2 ^ n" by (rule drop_bit_eq_div)
  finally show ?thesis .
qed

lemma unat_pow2:
  assumes "n < LENGTH('a::len)"
  shows "unat (2 ^ n :: 'a word) = 2 ^ n"
proof -
  have "(2 ^ n :: 'a word) = word_of_nat (2 ^ n)" by simp
  then have "unat (2 ^ n :: 'a word) = 2 ^ n mod 2 ^ LENGTH('a)"
    by (simp only: unat_of_nat)
  then show ?thesis using assms by simp
qed

lemma pow_split:
  fixes n N :: nat
  assumes "n < N"
  shows "(2::nat) ^ N = 2 ^ n * 2 ^ (N - n)" and "even ((2::nat) ^ (N - n))"
proof -
  show "(2::nat) ^ N = 2 ^ n * 2 ^ (N - n)"
    using assms by (simp flip: power_add)
  show "even ((2::nat) ^ (N - n))" using assms by simp
qed

lemma epoch_bit:
  fixes h u :: "'a::len word"
  assumes n: "n < LENGTH('a)" and u: "unat u \<le> 2 ^ n"
  shows "(drop_bit n (h + u) - drop_bit n h) AND 1 =
         (if unat h mod 2 ^ n + unat u < 2 ^ n then 0 else (1 :: 'a word))"
proof -
  have a: "even (drop_bit n (h + u)) = even (((unat h + unat u) mod (2 ^ n * 2 ^ (LENGTH('a) - n))) div 2 ^ n)"
    by (simp add: even_unat_word [symmetric] unat_drop_bit_div unat_word_ariths
        pow_split(1) [OF n, symmetric])
  have b: "even (drop_bit n h) = even (unat h div 2 ^ n)"
    by (simp add: even_unat_word [symmetric] unat_drop_bit_div)
  have "(even (drop_bit n (h + u)) = even (drop_bit n h)) \<longleftrightarrow> unat h mod 2 ^ n + unat u < 2 ^ n"
    unfolding a b by (rule epoch_parity_nat) (use u pow_split(2) [OF n] in simp_all)
  then show ?thesis by (simp add: and_one_parity)
qed

lemma wf_mask: "bq_wf q \<Longrightarrow> mask_bq q = mask (unat (cap_lg2 q))"
  by (simp add: bq_wf_def mask_eq_exp_minus_1 push_bit_eq_mult)

lemma wf_capacity: "bq_wf q \<Longrightarrow> capacity q = 2 ^ unat (cap_lg2 q)"
  by (simp add: capacity_def wf_mask mask_eq_exp_minus_1)

lemma unat_capacity: "bq_wf q \<Longrightarrow> unat (capacity q) = cap q"
  by (simp add: wf_capacity cap_def bq_wf_def unat_pow2)

lemma cap_pos: "0 < cap q"
  by (simp add: cap_def)

lemma used_le_cap: "bq_wf q \<Longrightarrow> I1 q \<Longrightarrow> used q \<le> cap q"
  by (simp add: I1_def used_def word_le_nat_alt unat_capacity)

lemma unat_head_and: "bq_wf q \<Longrightarrow> unat (head q AND mask_bq q) = rd_off q"
  by (simp add: wf_mask unat_and_mask_mod rd_off_def cap_def)

lemma unat_tail_and: "bq_wf q \<Longrightarrow> unat (tail q AND mask_bq q) = wr_off q"
  by (simp add: wf_mask unat_and_mask_mod wr_off_def cap_def)

lemma rd_off_less: "rd_off q < cap q"
  by (simp add: rd_off_def cap_pos)

lemma wr_off_less: "wr_off q < cap q"
  by (simp add: wr_off_def cap_pos)

lemma mod_cap_word:
  fixes x y :: "'a::len word"
  assumes "n < LENGTH('a)"
  shows "unat (x + y) mod 2 ^ n = (unat x + unat y) mod 2 ^ n"
proof -
  have "(2::nat) ^ n dvd 2 ^ LENGTH('a)" using assms by (simp add: le_imp_power_dvd)
  then show ?thesis by (simp add: unat_word_ariths mod_mod_cancel)
qed

lemma wr_off_eq:
  assumes "bq_wf q" "I1 q"
  shows "wr_off q = (if rd_off q + used q < cap q then rd_off q + used q
                     else rd_off q + used q - cap q)"
proof -
  have n: "unat (cap_lg2 q) < 64" using assms(1) by (simp add: bq_wf_def)
  have "wr_off q = (unat (head q) + used q) mod cap q"
    using mod_cap_word [of "unat (cap_lg2 q)" "head q" "tail q - head q"] n
    by (simp add: wr_off_def cap_def used_def)
  also have "\<dots> = (if rd_off q + used q < cap q then rd_off q + used q
                     else rd_off q + used q - cap q)"
    unfolding rd_off_def by (rule mod_step_nat [OF cap_pos used_le_cap [OF assms]])
  finally show ?thesis .
qed

lemma cond_eq:
  assumes "bq_wf q" "I1 q"
  shows "(drop_bit (unat (cap_lg2 q)) (tail q) - drop_bit (unat (cap_lg2 q)) (head q)) AND 1 =
         (if rd_off q + used q < cap q then 0 else (1 :: 64 word))"
proof -
  have n: "unat (cap_lg2 q) < 64" using assms(1) by (simp add: bq_wf_def)
  have u: "unat (tail q - head q) \<le> 2 ^ unat (cap_lg2 q)"
    using used_le_cap [OF assms] by (simp add: used_def cap_def)
  have "tail q = head q + (tail q - head q)" by simp
  then show ?thesis
    using epoch_bit [of "unat (cap_lg2 q)" "tail q - head q" "head q"] n u by (simp add: rd_off_def used_def cap_def)
qed


lemma pop_len_eq:
  "pop_len q = tail q - head q - (tail q AND mask_bq q) *
     ((drop_bit (unat (cap_lg2 q)) (tail q) - drop_bit (unat (cap_lg2 q)) (head q)) AND 1)"
  by (simp add: pop_len_def bq_popbuf_def Let_def)

lemma push_len_eq:
  "push_len q = capacity q - (tail q - head q) - (head q AND mask_bq q) *
     (1 - ((drop_bit (unat (cap_lg2 q)) (tail q) - drop_bit (unat (cap_lg2 q)) (head q)) AND 1))"
  by (simp add: push_len_def bq_pushbuf_def Let_def capacity_def)

lemma pop_len_nat:
  assumes "bq_wf q" "I1 q"
  shows "unat (pop_len q) = min (used q) (cap q - rd_off q)"
proof (cases "rd_off q + used q < cap q")
  case True
  then have "pop_len q = tail q - head q"
    by (simp add: pop_len_eq cond_eq [OF assms])
  then show ?thesis using True by (simp add: used_def)
next
  case False
  have w: "wr_off q = rd_off q + used q - cap q"
    using wr_off_eq [OF assms] False by simp
  have le: "tail q AND mask_bq q \<le> tail q - head q"
    using w rd_off_less [of q]
    by (simp add: word_le_nat_alt unat_tail_and [OF assms(1)] used_def)
  have "pop_len q = (tail q - head q) - (tail q AND mask_bq q)"
    using False by (simp add: pop_len_eq cond_eq [OF assms])
  then have "unat (pop_len q) = used q - wr_off q"
    using unat_sub [OF le] by (simp add: unat_tail_and [OF assms(1)] used_def)
  then show ?thesis
    using False w rd_off_less [of q] used_le_cap [OF assms] by simp
qed

lemma push_len_nat:
  assumes "bq_wf q" "I1 q"
  shows "unat (push_len q) = min (cap q - used q) (cap q - wr_off q)"
proof -
  have le1: "tail q - head q \<le> capacity q"
    using assms(2) by (simp add: I1_def)
  have free: "unat (capacity q - (tail q - head q)) = cap q - used q"
    using unat_sub [OF le1] by (simp add: unat_capacity [OF assms(1)] used_def)
  show ?thesis
  proof (cases "rd_off q + used q < cap q")
    case True
    have w: "wr_off q = rd_off q + used q"
      using wr_off_eq [OF assms] True by simp
    have le2: "head q AND mask_bq q \<le> capacity q - (tail q - head q)"
      using True by (simp add: word_le_nat_alt free unat_head_and [OF assms(1)])
    have "push_len q = capacity q - (tail q - head q) - (head q AND mask_bq q)"
      using True by (simp add: push_len_eq cond_eq [OF assms])
    then have "unat (push_len q) = cap q - used q - rd_off q"
      using unat_sub [OF le2] by (simp add: free unat_head_and [OF assms(1)])
    then show ?thesis using True w by simp
  next
    case False
    have w: "wr_off q = rd_off q + used q - cap q"
      using wr_off_eq [OF assms] False by simp
    have "push_len q = capacity q - (tail q - head q)"
      using False by (simp add: push_len_eq cond_eq [OF assms])
    then have "unat (push_len q) = cap q - used q" by (simp add: free)
    then show ?thesis
      using False w rd_off_less [of q] used_le_cap [OF assms] by simp
  qed
qed

lemma pop_ptr_eq: "bq_wf q \<Longrightarrow> pop_ptr q = data q + of_nat (rd_off q)"
  by (simp add: pop_ptr_def bq_popbuf_def Let_def flip: unat_head_and)

lemma push_ptr_eq: "bq_wf q \<Longrightarrow> push_ptr q = data q + of_nat (wr_off q)"
  by (simp add: push_ptr_def bq_pushbuf_def Let_def flip: unat_tail_and)

subsection \<open>The epochs of the cursors\<close>

lemma epoch_same:
  assumes "bq_wf q" "I1 q"
  shows "drop_bit (unat (cap_lg2 q)) (tail q) = drop_bit (unat (cap_lg2 q)) (head q)
         \<longleftrightarrow> rd_off q + used q < cap q"
proof
  assume "drop_bit (unat (cap_lg2 q)) (tail q) = drop_bit (unat (cap_lg2 q)) (head q)"
  then have "(drop_bit (unat (cap_lg2 q)) (tail q) - drop_bit (unat (cap_lg2 q)) (head q)) AND 1
             = (0 :: size_t)" by simp
  then show "rd_off q + used q < cap q"
    using cond_eq [OF assms] by (simp split: if_splits)
next
  assume lt: "rd_off q + used q < cap q"
  let ?n = "unat (cap_lg2 q)"
  define W :: nat where "W = 2 ^ LENGTH(64)"
  define E :: nat where "E = 2 ^ (LENGTH(64) - ?n)"
  define H where "H = unat (head q)"
  have n: "?n < LENGTH(64)" using assms(1) by (simp add: bq_wf_def)
  have W: "W = cap q * E" unfolding W_def E_def cap_def by (rule pow_split(1) [OF n])
  have "H < W" unfolding H_def W_def by (rule unsigned_less)
  then have "H div cap q < E" unfolding W by (simp add: less_mult_imp_div_less mult.commute)
  then have "Suc (H div cap q) \<le> E" by simp
  then have "cap q * Suc (H div cap q) \<le> cap q * E" by (rule mult_le_mono2)
  then have "cap q * (H div cap q) + cap q \<le> W" by (simp add: W)
  moreover have "H + used q = cap q * (H div cap q) + (rd_off q + used q)"
    by (simp add: rd_off_def H_def)
  ultimately have nowrap: "unat (head q) + unat (tail q - head q) < 2 ^ LENGTH(64)"
    using lt unfolding W_def H_def used_def by linarith
  have "tail q = head q + (tail q - head q)" by simp
  then have "unat (tail q) = unat (head q + (tail q - head q))" by simp
  also have "\<dots> = unat (head q) + unat (tail q - head q)"
    using nowrap by (simp only: unat_add_lem [THEN iffD1])
  finally have t: "unat (tail q) = H + used q" by (simp add: H_def used_def)
  have "(H + used q) div cap q = H div cap q"
    using div_step_nat [OF cap_pos used_le_cap [OF assms], of H] lt
    by (simp add: rd_off_def H_def)
  then show "drop_bit ?n (tail q) = drop_bit ?n (head q)"
    by (simp add: word_unat_eq_iff unat_drop_bit_div t cap_def flip: H_def)
qed

subsection \<open>The lengths as minima\<close>

lemma unat_min_word: "unat (min a b) = min (unat a) (unat (b :: 'a::len word))"
  by (simp add: min_def word_le_nat_alt)

lemma unat_free: "bq_wf q \<Longrightarrow> I1 q \<Longrightarrow> unat (capacity q - (tail q - head q)) = cap q - used q"
  by (simp add: I1_def unat_sub unat_capacity used_def)

lemma unat_to_end_wr: 
  assumes "bq_wf q"
  shows "unat (capacity q - (tail q AND mask_bq q)) = cap q - wr_off q"
proof -
  have "tail q AND mask_bq q \<le> capacity q"
    using wr_off_less [of q]
    by (simp add: word_le_nat_alt unat_tail_and [OF assms] unat_capacity [OF assms])
  then show ?thesis
    by (simp add: unat_sub unat_tail_and [OF assms] unat_capacity [OF assms])
qed

lemma unat_to_end_rd: 
  assumes "bq_wf q"
  shows "unat (capacity q - (head q AND mask_bq q)) = cap q - rd_off q"
proof -
  have "head q AND mask_bq q \<le> capacity q"
    using rd_off_less [of q]
    by (simp add: word_le_nat_alt unat_head_and [OF assms] unat_capacity [OF assms])
  then show ?thesis
    by (simp add: unat_sub unat_head_and [OF assms] unat_capacity [OF assms])
qed

lemma push_len_min:
  assumes "bq_wf q" "I1 q"
  shows "push_len q = min (capacity q - (tail q - head q)) (capacity q - (tail q AND mask_bq q))"
  by (simp add: word_unat_eq_iff unat_min_word push_len_nat [OF assms] unat_free [OF assms]
      unat_to_end_wr [OF assms(1)])

lemma pop_len_min:
  assumes "bq_wf q" "I1 q"
  shows "pop_len q = min (tail q - head q) (capacity q - (head q AND mask_bq q))"
  by (simp add: word_unat_eq_iff unat_min_word pop_len_nat [OF assms]
      unat_to_end_rd [OF assms(1)] used_def)

section \<open>Construction\<close>

lemma drop_bit_zero_iff: "drop_bit k (l :: 'a::len word) = 0 \<longleftrightarrow> unat l < 2 ^ k"
proof -
  have "drop_bit k l = 0 \<longleftrightarrow> unat (drop_bit k l) = 0" by (simp add: unat_eq_0)
  also have "\<dots> \<longleftrightarrow> unat l < 2 ^ k" by (simp add: unat_drop_bit_div div_eq_0_iff)
  finally show ?thesis .
qed

lemma msb_step:
  assumes "msb_inv L (k + k) s" and "0 < k" and kw: "kw = of_nat k"
  shows "msb_inv L k (if drop_bit k (fst s) \<noteq> 0 then (drop_bit k (fst s), snd s + kw) else s)"
proof (cases "drop_bit k (fst s) = 0")
  case True
  then show ?thesis using assms by (simp add: msb_inv_def drop_bit_zero_iff)
next
  case False
  have m: "unat (snd s) + (k + k) \<le> 64" using assms(1) by (simp add: msb_inv_def)
  then have "unat (snd s) + k < 2 ^ LENGTH(8)" by simp
  then have u: "unat (snd s + of_nat k) = unat (snd s) + k"
    by (simp add: unat_word_ariths unat_of_nat)
  have "unat (fst s) < 2 ^ k * 2 ^ k" using assms(1) by (simp add: msb_inv_def power_add)
  then have "unat (fst s) div 2 ^ k < 2 ^ k"
    by (simp add: less_mult_imp_div_less)
  then have b: "unat (drop_bit k (fst s)) < 2 ^ k" by (simp add: unat_drop_bit_div)
  have "drop_bit k (drop_bit (unat (snd s)) L) = drop_bit (k + unat (snd s)) L"
    by (rule drop_bit_drop_bit)
  moreover have "drop_bit (unat (snd s)) L = fst s" using assms(1) by (simp add: msb_inv_def)
  ultimately have "drop_bit (k + unat (snd s)) L = drop_bit k (fst s)" by (simp only:)
  then have d: "drop_bit (unat (snd s + of_nat k)) L = drop_bit k (fst s)"
    by (simp only: u add.commute [of "unat (snd s)" k])
  show ?thesis using False b d m by (simp add: msb_inv_def u kw)
qed

lemma msb_last:
  assumes "msb_inv L 2 s"
  defines "m \<equiv> (if drop_bit 1 (fst s) \<noteq> 0 then snd s + 1 else snd s)"
  shows "unat m < 64 \<and> drop_bit (unat m) L = 1"
proof -
  let ?s' = "if drop_bit 1 (fst s) \<noteq> 0 then (drop_bit 1 (fst s), snd s + of_nat 1) else s"
  have "msb_inv L (1 + 1) s" using assms(1) by (simp add: numeral_2_eq_2)
  then have i: "msb_inv L 1 ?s'" by (rule msb_step) simp_all
  have m: "snd ?s' = m" by (simp add: m_def)
  have "unat (fst ?s') < 2" "fst ?s' \<noteq> 0" using i by (simp_all add: msb_inv_def)
  then have "unat (fst ?s') = 1" by (simp add: unat_eq_0 less_2_cases_iff)
  then have "fst ?s' = 1" by (simp add: word_unat_eq_iff)
  moreover have "drop_bit (unat (snd ?s')) L = fst ?s'" "unat (snd ?s') + 1 \<le> 64"
    using i by (simp_all add: msb_inv_def)
  ultimately show ?thesis unfolding m by simp
qed

lemma msb_bounds:
  fixes L :: "'a::len word"
  assumes "drop_bit m L = 1"
  shows "2 ^ m \<le> unat L \<and> unat L < 2 * 2 ^ m"
proof -
  have "unat (drop_bit m L) = 1" using assms by simp
  then have d: "unat L div 2 ^ m = 1" by (simp only: unat_drop_bit_div)
  have "unat L = 2 ^ m * (unat L div 2 ^ m) + unat L mod 2 ^ m" by simp
  then have e: "unat L = 2 ^ m + unat L mod 2 ^ m" by (simp only: d mult_1_right)
  have "unat L mod 2 ^ m < 2 ^ m" by simp
  then show ?thesis using e by linarith
qed

lemma bq_make_ok:
  assumes "buf \<noteq> 0" and "L \<noteq> 0"
  shows "\<exists>m. bq_make buf L = \<lparr>head = 0, tail = 0, mask_bq = push_bit (unat m) 1 - 1, cap_lg2 = m, data = buf\<rparr>
           \<and> unat m < 64 \<and> 2 ^ unat m \<le> unat L \<and> unat L < 2 * 2 ^ unat m"
proof -
  define s0 where "s0 = (L, 0 :: uchar)"
  define s1 where "s1 = (if drop_bit 32 (fst s0) \<noteq> 0 then (drop_bit 32 (fst s0), snd s0 + 32) else s0)"
  define s2 where "s2 = (if drop_bit 16 (fst s1) \<noteq> 0 then (drop_bit 16 (fst s1), snd s1 + 16) else s1)"
  define s3 where "s3 = (if drop_bit 8 (fst s2) \<noteq> 0 then (drop_bit 8 (fst s2), snd s2 + 8) else s2)"
  define s4 where "s4 = (if drop_bit 4 (fst s3) \<noteq> 0 then (drop_bit 4 (fst s3), snd s3 + 4) else s3)"
  define s5 where "s5 = (if drop_bit 2 (fst s4) \<noteq> 0 then (drop_bit 2 (fst s4), snd s4 + 2) else s4)"
  define m where "m = (if drop_bit 1 (fst s5) \<noteq> 0 then snd s5 + 1 else snd s5)"
  have "unat L < 2 ^ LENGTH(64)" by (rule unsigned_less)
  then have i0: "msb_inv L 64 s0"
    using assms(2) by (simp add: msb_inv_def s0_def)
  have i1: "msb_inv L 32 s1"
    unfolding s1_def by (rule msb_step) (use i0 in simp_all)
  have i2: "msb_inv L 16 s2"
    unfolding s2_def by (rule msb_step) (use i1 in simp_all)
  have i3: "msb_inv L 8 s3"
    unfolding s3_def by (rule msb_step) (use i2 in simp_all)
  have i4: "msb_inv L 4 s4"
    unfolding s4_def by (rule msb_step) (use i3 in simp_all)
  have i5: "msb_inv L 2 s5"
    unfolding s5_def by (rule msb_step) (use i4 in simp_all)
  have l: "unat m < 64 \<and> drop_bit (unat m) L = 1"
    unfolding m_def by (rule msb_last [OF i5])
  have "bq_make buf L = \<lparr>head = 0, tail = 0, mask_bq = push_bit (unat m) 1 - 1, cap_lg2 = m, data = buf\<rparr>"
    using assms
    by (simp only: bq_make_def Let_def split_def m_def s5_def s4_def s3_def s2_def s1_def s0_def
        fst_conv snd_conv prod.collapse simp_thms if_False)
  moreover have "2 ^ unat m \<le> unat L \<and> unat L < 2 * 2 ^ unat m"
    using l by (simp add: msb_bounds)
  ultimately show ?thesis using l by (intro exI [of _ m]) simp
qed

section \<open>Commits\<close>

lemma ring_distinct:
  fixes r j k C :: nat
  assumes "j < k" "k < C"
  shows "(r + j) mod C \<noteq> (r + k) mod C"
proof
  assume "(r + j) mod C = (r + k) mod C"
  then have "(r + k) mod C = (r + j) mod C" by simp
  moreover have "r + j \<le> r + k" using assms(1) by simp
  ultimately have "C dvd (r + k) - (r + j)" by (simp only: mod_eq_dvd_iff_nat)
  then have "C dvd k - j" by simp
  moreover have "0 < k - j" "k - j < C" using assms by simp_all
  ultimately show False by (simp add: nat_dvd_not_less)
qed

lemma cap_le: "bq_wf q \<Longrightarrow> cap q < 2 ^ 64"
  using power_strict_increasing [of "unat (cap_lg2 q)" 64 "2::nat"]
  by (simp add: cap_def bq_wf_def)

lemma of_nat_inj64:
  assumes "a < 2 ^ 64" "b < 2 ^ 64"
  shows "(of_nat a :: 64 word) = of_nat b \<longleftrightarrow> a = b"
proof -
  have u: "unat (of_nat a :: 64 word) = a" "unat (of_nat b :: 64 word) = b"
    using assms by (simp_all add: unat_of_nat)
  show ?thesis
  proof
    assume "(of_nat a :: 64 word) = of_nat b"
    then have "unat (of_nat a :: 64 word) = unat (of_nat b :: 64 word)" by (simp only:)
    then show "a = b" using u by (simp only:)
  next
    assume "a = b"
    then show "(of_nat a :: 64 word) = of_nat b" by (simp only:)
  qed
qed

lemma addr_inj:
  assumes "bq_wf q" "a < cap q" "b < cap q"
  shows "data q + of_nat a = data q + of_nat b \<longleftrightarrow> a = b"
proof -
  have "a < 2 ^ 64" "b < 2 ^ 64" using cap_le [OF assms(1)] assms(2,3) by simp_all
  then show ?thesis by (simp add: of_nat_inj64)
qed

lemma bq_push_fields [simp]:
  "head (bq_push q n) = head q" "tail (bq_push q n) = tail q + n"
  "mask_bq (bq_push q n) = mask_bq q" "cap_lg2 (bq_push q n) = cap_lg2 q"
  "data (bq_push q n) = data q"
  by (simp_all add: bq_push_def)

lemma bq_pop_fields [simp]:
  "head (bq_pop q n) = head q + n" "tail (bq_pop q n) = tail q"
  "mask_bq (bq_pop q n) = mask_bq q" "cap_lg2 (bq_pop q n) = cap_lg2 q"
  "data (bq_pop q n) = data q"
  by (simp_all add: bq_pop_def)

lemma wf_push [simp]: "bq_wf (bq_push q n) = bq_wf q"
  by (simp add: bq_wf_def)

lemma wf_pop [simp]: "bq_wf (bq_pop q n) = bq_wf q"
  by (simp add: bq_wf_def)

lemma cap_push [simp]: "cap (bq_push q n) = cap q"
  by (simp add: cap_def)

lemma cap_pop [simp]: "cap (bq_pop q n) = cap q"
  by (simp add: cap_def)

lemma capacity_push [simp]: "capacity (bq_push q n) = capacity q"
  by (simp add: capacity_def)

lemma capacity_pop [simp]: "capacity (bq_pop q n) = capacity q"
  by (simp add: capacity_def)

lemma rd_off_push [simp]: "rd_off (bq_push q n) = rd_off q"
  by (simp add: rd_off_def)

lemma wr_off_pop [simp]: "wr_off (bq_pop q n) = wr_off q"
  by (simp add: wr_off_def)

lemma used_push:
  assumes "bq_wf q" "used q + unat n \<le> cap q"
  shows "used (bq_push q n) = used q + unat n"
proof -
  have "used q + unat n < 2 ^ LENGTH(64)" using cap_le [OF assms(1)] assms(2) by simp
  then have e1: "unat ((tail q - head q) + n) = unat (tail q - head q) + unat n"
    unfolding used_def by (simp only: unat_add_lem [THEN iffD1])
  have e2: "tail q + n - head q = (tail q - head q) + n" by simp
  show ?thesis by (simp only: used_def bq_push_fields e2 e1)
qed

lemma used_pop:
  assumes "unat n \<le> used q"
  shows "used (bq_pop q n) = used q - unat n"
proof -
  have "n \<le> tail q - head q" using assms by (simp add: word_le_nat_alt used_def)
  then have e1: "unat ((tail q - head q) - n) = unat (tail q - head q) - unat n"
    by (rule unat_sub)
  have e2: "tail q - (head q + n) = (tail q - head q) - n" by simp
  show ?thesis by (simp only: used_def bq_pop_fields e2 e1)
qed

lemma rd_off_pop:
  assumes "bq_wf q"
  shows "rd_off (bq_pop q n) = (rd_off q + unat n) mod cap q"
proof -
  have "unat (cap_lg2 q) < LENGTH(64)" using assms by (simp add: bq_wf_def)
  then show ?thesis
    by (simp add: rd_off_def cap_def mod_cap_word mod_add_left_eq)
qed

lemma wr_off_push:
  assumes "bq_wf q"
  shows "wr_off (bq_push q n) = (wr_off q + unat n) mod cap q"
proof -
  have "unat (cap_lg2 q) < LENGTH(64)" using assms by (simp add: bq_wf_def)
  then show ?thesis
    by (simp add: wr_off_def cap_def mod_cap_word mod_add_left_eq)
qed

lemma wr_off_mod:
  assumes "bq_wf q" "I1 q"
  shows "wr_off q = (rd_off q + used q) mod cap q"
  using wr_off_eq [OF assms] mod_step_nat [OF cap_pos used_le_cap [OF assms], of "rd_off q"]
    rd_off_less [of q]
  by (simp add: mod_add_left_eq rd_off_def)

lemma I1_push:
  assumes "bq_wf q" "used q + unat n \<le> cap q"
  shows "I1 (bq_push q n)"
  using used_push [OF assms] assms
  by (simp add: I1_def word_le_nat_alt unat_capacity used_def)

lemma I1_pop:
  assumes "bq_wf q" "I1 q" "unat n \<le> used q"
  shows "I1 (bq_pop q n)"
  using used_pop [OF assms(3)] used_le_cap [OF assms(1,2)] assms(1)
  by (simp add: I1_def word_le_nat_alt unat_capacity used_def)

section \<open>The invariant of the producer and consumer system\<close>

lemma bq_pushbuf_eq: "bq_pushbuf q = (q, push_ptr q, push_len q)"
  by (simp add: push_ptr_def push_len_def bq_pushbuf_def Let_def)

lemma bq_popbuf_eq: "bq_popbuf q = (q, pop_ptr q, pop_len q)"
  by (simp add: pop_ptr_def pop_len_def bq_popbuf_def Let_def)

lemma length_slice [simp]: "length (slice m p n) = unat n"
  by (simp add: slice_def)

lemma nth_slice: "i < unat n \<Longrightarrow> slice m p n ! i = m (p + of_nat i)"
  by (simp add: slice_def)

lemma inv_pushbuf:
  assumes "sys_inv s" "step PushBuf s = Some s'"
  shows "sys_inv s'"
proof -
  let ?q = "queue s"
  have wf: "bq_wf ?q" and i1: "I1 ?q" using assms(1) by (simp_all add: sys_inv_def)
  have s': "s' = s\<lparr>wbuf := Some (push_ptr ?q, push_len ?q)\<rparr>"
    using assms(2) by (simp add: bq_pushbuf_eq)
  have "unat (push_len ?q) \<le> cap ?q - used ?q" "wr_off ?q + unat (push_len ?q) \<le> cap ?q"
    using push_len_nat [OF wf i1] wr_off_less [of ?q] by simp_all
  then show ?thesis
    using assms(1) by (simp add: s' sys_inv_def push_ptr_eq [OF wf])
qed

lemma inv_popbuf:
  assumes "sys_inv s" "step PopBuf s = Some s'"
  shows "sys_inv s'"
proof -
  let ?q = "queue s"
  have wf: "bq_wf ?q" and i1: "I1 ?q" using assms(1) by (simp_all add: sys_inv_def)
  have s': "s' = s\<lparr>rbuf := Some (pop_ptr ?q, pop_len ?q)\<rparr>"
    using assms(2) by (simp add: bq_popbuf_eq)
  have "unat (pop_len ?q) \<le> used ?q" "rd_off ?q + unat (pop_len ?q) \<le> cap ?q"
    using pop_len_nat [OF wf i1] rd_off_less [of ?q] by simp_all
  then show ?thesis
    using assms(1) by (simp add: s' sys_inv_def pop_ptr_eq [OF wf])
qed

lemma inv_write:
  assumes "sys_inv s" "step (Write i b) s = Some s'"
  shows "sys_inv s'"
proof -
  let ?q = "queue s"
  have wf: "bq_wf ?q" and i1: "I1 ?q" using assms(1) by (simp_all add: sys_inv_def)
  obtain p l where w: "wbuf s = Some (p, l)" and il: "i < l"
    and s': "s' = s\<lparr>mem := (mem s)(p + i := b)\<rparr>"
    using assms(2) by (auto split: option.splits if_splits)
  have p: "p = data ?q + of_nat (wr_off ?q)" and l1: "unat l \<le> cap ?q - used ?q"
    and l2: "wr_off ?q + unat l \<le> cap ?q"
    using assms(1) w by (simp_all add: sys_inv_def)
  have ui: "unat i < unat l" using il by (simp add: word_less_nat_alt)
  have a: "p + i = data ?q + of_nat (wr_off ?q + unat i)" by (simp add: p)
  have fresh: "p + i \<noteq> data ?q + of_nat ((rd_off ?q + j) mod cap ?q)" if "j < used ?q" for j
  proof -
    have k: "used ?q + unat i < cap ?q" using ui l1 by simp
    have "wr_off ?q + unat i < cap ?q" using ui l2 by simp
    then have "wr_off ?q + unat i = (wr_off ?q + unat i) mod cap ?q" by simp
    also have "\<dots> = ((rd_off ?q + used ?q) mod cap ?q + unat i) mod cap ?q"
      by (simp only: wr_off_mod [OF wf i1])
    also have "\<dots> = (rd_off ?q + (used ?q + unat i)) mod cap ?q"
      by (simp add: mod_add_left_eq add.assoc)
    finally have "wr_off ?q + unat i = (rd_off ?q + (used ?q + unat i)) mod cap ?q" .
    moreover have "(rd_off ?q + j) mod cap ?q \<noteq> (rd_off ?q + (used ?q + unat i)) mod cap ?q"
      by (rule ring_distinct) (use that k in simp_all)
    ultimately have "wr_off ?q + unat i \<noteq> (rd_off ?q + j) mod cap ?q" by simp
    then have ne: "wr_off ?q + unat i \<noteq> (rd_off ?q + j) mod cap ?q" .
    have lt1: "wr_off ?q + unat i < cap ?q" using ui l2 by simp
    have lt2: "(rd_off ?q + j) mod cap ?q < cap ?q" by (simp add: cap_pos)
    show ?thesis unfolding a using addr_inj [OF wf lt1 lt2] ne by blast
  qed
  have fresh': "data ?q + of_nat ((rd_off ?q + j) mod cap ?q) \<noteq> p + i" if "j < used ?q" for j
    using fresh [OF that] by (rule not_sym)
  have keep: "((mem s)(p + i := b)) (data ?q + of_nat ((rd_off ?q + j) mod cap ?q)) =
              produced s ! (length (consumed s) + j)" if "j < used ?q" for j
    using assms(1) that fresh' [OF that] by (simp add: sys_inv_def)
  show ?thesis
    using assms(1) keep by (simp add: s' sys_inv_def)
qed

lemma inv_push:
  assumes "sys_inv s" "step (Push n) s = Some s'"
  shows "sys_inv s'"
proof -
  let ?q = "queue s"
  let ?c = "length (consumed s)"
  have wf: "bq_wf ?q" and i1: "I1 ?q" using assms(1) by (simp_all add: sys_inv_def)
  obtain p l where w: "wbuf s = Some (p, l)" and nl: "n \<le> l"
    and s': "s' = s\<lparr>queue := bq_push ?q n, wbuf := None,
                     produced := produced s @ slice (mem s) p n\<rparr>"
    using assms(2) by (auto split: option.splits if_splits)
  have p: "p = data ?q + of_nat (wr_off ?q)" and l1: "unat l \<le> cap ?q - used ?q"
    and l2: "wr_off ?q + unat l \<le> cap ?q"
    using assms(1) w by (simp_all add: sys_inv_def)
  have len: "length (produced s) = ?c + used ?q"
    and pre: "take ?c (produced s) = consumed s"
    and old: "\<And>i. i < used ?q \<Longrightarrow>
        mem s (data ?q + of_nat ((rd_off ?q + i) mod cap ?q)) = produced s ! (?c + i)"
    using assms(1) by (simp_all add: sys_inv_def)
  have un: "unat n \<le> unat l" using nl by (simp add: word_le_nat_alt)
  have fits: "used ?q + unat n \<le> cap ?q"
    using un l1 used_le_cap [OF wf i1] by simp
  have u': "used (bq_push ?q n) = used ?q + unat n" by (rule used_push [OF wf fits])
  have i1': "I1 (bq_push ?q n)" by (rule I1_push [OF wf fits])
  have new: "mem s (data ?q + of_nat ((rd_off ?q + i) mod cap ?q)) =
             (produced s @ slice (mem s) p n) ! (?c + i)" if "i < used ?q + unat n" for i
  proof (cases "i < used ?q")
    case True
    then show ?thesis using old [OF True] len by (simp add: nth_append)
  next
    case False
    define k where "k = i - used ?q"
    have k: "k < unat n" "i = used ?q + k" using False that by (simp_all add: k_def)
    have "wr_off ?q + k < cap ?q" using k(1) un l2 by simp
    then have "wr_off ?q + k = (wr_off ?q + k) mod cap ?q" by simp
    also have "\<dots> = ((rd_off ?q + used ?q) mod cap ?q + k) mod cap ?q"
      by (simp only: wr_off_mod [OF wf i1])
    also have "\<dots> = (rd_off ?q + i) mod cap ?q"
      by (simp add: mod_add_left_eq add.assoc k(2))
    finally have e: "(rd_off ?q + i) mod cap ?q = wr_off ?q + k" by simp
    have "(produced s @ slice (mem s) p n) ! (?c + i) = slice (mem s) p n ! k"
      using len by (simp add: nth_append k(2))
    also have "\<dots> = mem s (p + of_nat k)" by (rule nth_slice [OF k(1)])
    also have "\<dots> = mem s (data ?q + of_nat (wr_off ?q + k))" by (simp add: p add.assoc)
    finally show ?thesis by (simp only: e)
  qed
  have r: "unat l' \<le> used ?q + unat n" if "unat l' \<le> used ?q" for l' :: size_t
    using that by simp
  show ?thesis
    using assms(1) new len pre
    by (simp add: s' sys_inv_def wf i1' u' r trans_le_add1)
qed

lemma inv_pop:
  assumes "sys_inv s" "step (Pop n) s = Some s'"
  shows "sys_inv s'"
proof -
  let ?q = "queue s"
  let ?c = "length (consumed s)"
  have wf: "bq_wf ?q" and i1: "I1 ?q" using assms(1) by (simp_all add: sys_inv_def)
  obtain p l where w: "rbuf s = Some (p, l)" and nl: "n \<le> l"
    and s': "s' = s\<lparr>queue := bq_pop ?q n, rbuf := None,
                     consumed := consumed s @ slice (mem s) p n\<rparr>"
    using assms(2) by (auto split: option.splits if_splits)
  have p: "p = data ?q + of_nat (rd_off ?q)" and l1: "unat l \<le> used ?q"
    and l2: "rd_off ?q + unat l \<le> cap ?q"
    using assms(1) w by (simp_all add: sys_inv_def)
  have len: "length (produced s) = ?c + used ?q"
    and pre: "take ?c (produced s) = consumed s"
    and old: "\<And>i. i < used ?q \<Longrightarrow>
        mem s (data ?q + of_nat ((rd_off ?q + i) mod cap ?q)) = produced s ! (?c + i)"
    using assms(1) by (simp_all add: sys_inv_def)
  have un: "unat n \<le> unat l" using nl by (simp add: word_le_nat_alt)
  have nu: "unat n \<le> used ?q" using un l1 by simp
  have u': "used (bq_pop ?q n) = used ?q - unat n" by (rule used_pop [OF nu])
  have i1': "I1 (bq_pop ?q n)" by (rule I1_pop [OF wf i1 nu])
  have r': "rd_off (bq_pop ?q n) = (rd_off ?q + unat n) mod cap ?q" by (rule rd_off_pop [OF wf])
  have sl: "slice (mem s) p n = take (unat n) (drop ?c (produced s))"
  proof (rule nth_equalityI)
    show "length (slice (mem s) p n) = length (take (unat n) (drop ?c (produced s)))"
      using len nu by simp
  next
    fix i assume "i < length (slice (mem s) p n)"
    then have i: "i < unat n" by simp
    then have iu: "i < used ?q" using nu by simp
    have "rd_off ?q + i < cap ?q" using i un l2 by simp
    then have e: "(rd_off ?q + i) mod cap ?q = rd_off ?q + i" by simp
    have "slice (mem s) p n ! i = mem s (data ?q + of_nat (rd_off ?q + i))"
      using nth_slice [OF i, of "mem s" p] by (simp add: p add.assoc)
    also have "\<dots> = produced s ! (?c + i)" using old [OF iu] by (simp only: e)
    finally show "slice (mem s) p n ! i = take (unat n) (drop ?c (produced s)) ! i"
      using i len iu by simp
  qed
  have pre': "take (?c + unat n) (produced s) = consumed s @ slice (mem s) p n"
    by (simp add: take_add pre sl)
  have new: "mem s (data ?q + of_nat (((rd_off ?q + unat n) mod cap ?q + i) mod cap ?q)) =
             produced s ! (?c + unat n + i)" if "i < used ?q - unat n" for i
  proof -
    have "unat n + i < used ?q" using that by simp
    then have "mem s (data ?q + of_nat ((rd_off ?q + (unat n + i)) mod cap ?q)) =
               produced s ! (?c + (unat n + i))" by (rule old)
    then show ?thesis by (simp add: mod_add_left_eq add.assoc)
  qed
  have f: "cap ?q - used ?q \<le> cap ?q - (used ?q - unat n)" by simp
  show ?thesis
    using assms(1) new len nu pre' f
    by (auto simp add: s' sys_inv_def wf i1' u' r')
qed

lemma inv_step:
  assumes "sys_inv s" "step e s = Some s'"
  shows "sys_inv s'"
  using assms by (cases e) (blast intro: inv_pushbuf inv_write inv_push inv_popbuf inv_pop)+

lemma inv_run:
  assumes "sys_inv s" "run es s = Some s'"
  shows "sys_inv s'"
  using assms
proof (induction es arbitrary: s)
  case Nil
  then show ?case by simp
next
  case (Cons e es)
  then obtain t where "step e s = Some t" "run es t = Some s'"
    by (auto split: option.splits)
  then show ?case using Cons.IH Cons.prems(1) inv_step by blast
qed

lemma inv_prefix:
  assumes "sys_inv s"
  shows "prefix (consumed s) (produced s)"
proof -
  have "take (length (consumed s)) (produced s) = consumed s"
    using assms by (simp add: sys_inv_def)
  moreover have "prefix (take (length (consumed s)) (produced s)) (produced s)"
    by (rule take_is_prefix)
  ultimately show ?thesis by (simp only:)
qed

lemma used_empty: "tail q = head q \<Longrightarrow> used q = 0"
  by (simp add: used_def)

lemma contents_empty: "tail q = head q \<Longrightarrow> contents q m = []"
  by (simp add: contents_def used_empty)

lemma inv_init:
  assumes "bq_wf q" "I1 q"
  shows "sys_inv (init q m)"
  using assms by (simp add: sys_inv_def init_def contents_def)

section \<open>Further facts for the claims\<close>

lemma bq_make_4: "buf \<noteq> 0 \<Longrightarrow> bq_make buf 4 = \<lparr>head = 0, tail = 0, mask_bq = 3, cap_lg2 = 2, data = buf\<rparr>"
  by (simp add: bq_make_def)

lemma bq_make_null: "buf = 0 \<or> L = 0 \<Longrightarrow> bq_make buf L = bq_zero"
  by (simp add: bq_make_def)

lemma bq_make_wf:
  assumes "buf \<noteq> 0" "L \<noteq> 0"
  shows "bq_wf (bq_make buf L)" "head (bq_make buf L) = 0" "tail (bq_make buf L) = 0"
    "data (bq_make buf L) = buf"
    "cap (bq_make buf L) \<le> unat L" "unat L < 2 * cap (bq_make buf L)"
  using bq_make_ok [OF assms] by (auto simp add: bq_wf_def cap_def)

lemma I1_empty: "tail q = head q \<Longrightarrow> I1 q"
  by (simp add: I1_def)

lemma pop_len_zero_iff:
  assumes "bq_wf q" "I1 q"
  shows "pop_len q = 0 \<longleftrightarrow> tail q = head q"
proof -
  have "unat (pop_len q) = 0 \<longleftrightarrow> used q = 0"
    using pop_len_nat [OF assms] rd_off_less [of q] by (simp add: min_def)
  then show ?thesis by (simp add: unat_eq_0 used_def)
qed

lemma push_len_zero_iff:
  assumes "bq_wf q" "I1 q"
  shows "push_len q = 0 \<longleftrightarrow> tail q - head q = capacity q"
proof -
  have "unat (push_len q) = 0 \<longleftrightarrow> used q = cap q"
    using push_len_nat [OF assms] wr_off_less [of q] used_le_cap [OF assms]
    by (auto simp add: min_def)
  then show ?thesis
    by (simp add: unat_eq_0 word_unat_eq_iff [of "tail q - head q"] unat_capacity [OF assms(1)] used_def)
qed

lemma inv_used_length:
  assumes "sys_inv s"
  shows "length (produced s) = length (consumed s) + unat (tail (queue s) - head (queue s))"
  using assms by (simp add: sys_inv_def used_def)

section \<open>The claims\<close>

text \<open>
  Claim C1. For a well-formed queue that satisfies I1, the length that
  \<^verbatim>\<open>bq_pushbuf\<close> stores is the smaller of the free space, \<open>capacity - (tail - head)\<close>,
  and the distance from the write offset to the end of the storage,
  \<open>capacity - (tail AND mask)\<close>. A queue made on four bytes has capacity 4, and after a
  commit of 3 written bytes and a commit of 2 read bytes \<^verbatim>\<open>bq_pushbuf\<close> reports 1.
\<close>

theorem pushbuf_len_contiguous_free:
  assumes "bq_wf q" and "I1 q" and "buf \<noteq> 0"
  shows "push_len q = min (capacity q - (tail q - head q)) (capacity q - (tail q AND mask_bq q))
       \<and> capacity (bq_make buf 4) = 4
       \<and> push_len (bq_pop (bq_push (bq_make buf 4) 3) 2) = 1"
  using push_len_min [OF assms(1,2)] assms(3)
  by (simp add: bq_make_4 capacity_def push_len_eq bq_pop_def bq_push_def)

text \<open>
  The queue of capacity 4 with \<open>head = 2 ^ 64 - 2\<close> and \<open>tail = 1\<close> holds three
  bytes, its cursors on both sides of the wrap of \<^verbatim>\<open>size_t\<close>; one byte is free.
\<close>

theorem pushbuf_len_contiguous_free_witness:
  "bq_wf \<lparr>head = 18446744073709551614, tail = 1, mask_bq = 3, cap_lg2 = 2, data = 4096\<rparr>
   \<and> I1 \<lparr>head = 18446744073709551614, tail = 1, mask_bq = 3, cap_lg2 = 2, data = 4096\<rparr>
   \<and> (4096 :: addr) \<noteq> 0
   \<and> push_len \<lparr>head = 18446744073709551614, tail = 1, mask_bq = 3, cap_lg2 = 2, data = 4096\<rparr> = 1
   \<and> push_len (bq_pop (bq_push (bq_make 4096 4) 3) 2) = 1"
  using pushbuf_len_contiguous_free [of "\<lparr>head = 18446744073709551614, tail = 1, mask_bq = 3, cap_lg2 = 2, data = 4096\<rparr>" 4096]
  by (simp add: bq_wf_def I1_def capacity_def)

text \<open>
  Claim C2. For a well-formed queue that satisfies I1, the length that
  \<^verbatim>\<open>bq_popbuf\<close> stores is \<open>tail - head\<close> when \<open>tail >> cap_lg2\<close> equals
  \<open>head >> cap_lg2\<close>, and \<open>tail - head - (tail AND mask)\<close> otherwise; it is the smaller
  of the bytes held, \<open>tail - head\<close>, and the distance from the read offset to the end
  of the storage, \<open>capacity - (head AND mask)\<close>.
\<close>

theorem popbuf_len_epoch_formula:
  assumes "bq_wf q" and "I1 q"
  shows "pop_len q =
           (if drop_bit (unat (cap_lg2 q)) (tail q) = drop_bit (unat (cap_lg2 q)) (head q)
            then tail q - head q
            else tail q - head q - (tail q AND mask_bq q))
       \<and> pop_len q = min (tail q - head q) (capacity q - (head q AND mask_bq q))"
proof (rule conjI)
  show "pop_len q =
          (if drop_bit (unat (cap_lg2 q)) (tail q) = drop_bit (unat (cap_lg2 q)) (head q)
           then tail q - head q
           else tail q - head q - (tail q AND mask_bq q))"
    by (simp add: pop_len_eq cond_eq [OF assms] epoch_same [OF assms])
  show "pop_len q = min (tail q - head q) (capacity q - (head q AND mask_bq q))"
    by (rule pop_len_min [OF assms])
qed

text \<open>
  With \<open>head = 2 ^ 64 - 2\<close> and \<open>tail = 1\<close> the cursors are in different epochs:
  of the three bytes held, two are contiguous.
\<close>

theorem popbuf_len_epoch_formula_witness:
  "bq_wf \<lparr>head = 18446744073709551614, tail = 1, mask_bq = 3, cap_lg2 = 2, data = 4096\<rparr>
   \<and> I1 \<lparr>head = 18446744073709551614, tail = 1, mask_bq = 3, cap_lg2 = 2, data = 4096\<rparr>
   \<and> pop_len \<lparr>head = 18446744073709551614, tail = 1, mask_bq = 3, cap_lg2 = 2, data = 4096\<rparr> = 2"
  using popbuf_len_epoch_formula [of "\<lparr>head = 18446744073709551614, tail = 1, mask_bq = 3, cap_lg2 = 2, data = 4096\<rparr>"]
  by (simp add: bq_wf_def I1_def capacity_def)

text \<open>
  Claim C3. Start from the queue that \<^verbatim>\<open>bq_make\<close> builds on a non-null buffer of
  non-zero length, with any memory, and run any interleaving of producer and consumer
  events that keeps the contract (a run that breaks it has no final state). Then nothing
  counts as produced at the start, the bytes consumed are a prefix of the bytes
  produced, in order, and the bytes produced and not consumed are as many as the queue
  holds.
\<close>

theorem spsc_conservation:
  assumes "buf \<noteq> 0" and "L \<noteq> 0"
    and "run evs (init (bq_make buf L) m) = Some s"
  shows "produced (init (bq_make buf L) m) = []
       \<and> prefix (consumed s) (produced s)
       \<and> length (produced s) = length (consumed s) + unat (tail (queue s) - head (queue s))"
proof -
  let ?q = "bq_make buf L"
  have wf: "bq_wf ?q" and e: "tail ?q = head ?q"
    using bq_make_wf(1,2,3) [OF assms(1,2)] by simp_all
  have "sys_inv (init ?q m)" by (rule inv_init [OF wf I1_empty [OF e]])
  then have "sys_inv s" using assms(3) by (rule inv_run)
  then show ?thesis
    using inv_prefix inv_used_length by (simp add: init_def contents_empty [OF e])
qed

text \<open>
  The scenario on a buffer of four bytes: 1, 2, 3 are written and committed, two
  bytes are read, 4 is written into the one free byte at the end of the storage, and
  the consumer reads the rest.
\<close>

theorem spsc_conservation_witness:
  "\<exists>s. (4096 :: addr) \<noteq> 0 \<and> (4 :: size_t) \<noteq> 0
     \<and> run [PushBuf, Write 0 1, Write 1 2, Write 2 3, Push 3, PopBuf, Pop 2,
             PushBuf, Write 0 4, Push 1, PopBuf, Pop 1, PopBuf, Pop 1]
            (init (bq_make 4096 4) (\<lambda>_. 0)) = Some s
     \<and> produced s = [1, 2, 3, 4] \<and> consumed s = [1, 2, 3, 4]
     \<and> prefix (consumed s) (produced s)"
proof -
  let ?r = "run [PushBuf, Write 0 1, Write 1 2, Write 2 3, Push 3, PopBuf, Pop 2,
             PushBuf, Write 0 4, Push 1, PopBuf, Pop 1, PopBuf, Pop 1]
            (init (bq_make 4096 4) (\<lambda>_. 0))"
  have "map_option (\<lambda>s. (produced s, consumed s)) ?r = Some ([1, 2, 3, 4], [1, 2, 3, 4])"
    by (simp add: init_def contents_def used_def bq_make_def bq_pushbuf_def bq_popbuf_def
        bq_push_def bq_pop_def slice_def upt_rec)
  then obtain s where s: "?r = Some s" "produced s = [1, 2, 3, 4]" "consumed s = [1, 2, 3, 4]"
    by auto
  have "prefix (consumed s) (produced s)"
    using spsc_conservation [OF _ _ s(1)] by simp
  then show ?thesis using s by simp
qed

text \<open>
  Claim C4. For a well-formed queue that satisfies I1, the length of
  \<^verbatim>\<open>bq_pushbuf\<close> is at most \<open>capacity - (tail - head)\<close> and the length of
  \<^verbatim>\<open>bq_popbuf\<close> is at most \<open>tail - head\<close>; I1 holds again after \<^verbatim>\<open>bq_push\<close> of a
  count within the first length, after \<^verbatim>\<open>bq_pop\<close> of a count within the second, and
  after each of the two buf calls.
\<close>

theorem no_overrun_and_I1_kept:
  assumes "bq_wf q" and "I1 q" and "n \<le> push_len q" and "k \<le> pop_len q"
  shows "push_len q \<le> capacity q - (tail q - head q)
       \<and> pop_len q \<le> tail q - head q
       \<and> I1 (bq_push q n) \<and> I1 (bq_pop q k)
       \<and> I1 (fst (bq_pushbuf q)) \<and> I1 (fst (bq_popbuf q))"
proof -
  have a: "push_len q \<le> capacity q - (tail q - head q)"
    by (simp add: push_len_min [OF assms(1,2)])
  have b: "pop_len q \<le> tail q - head q"
    by (simp add: pop_len_min [OF assms(1,2)])
  have "unat n \<le> cap q - used q"
    using assms(3) push_len_nat [OF assms(1,2)] by (simp add: word_le_nat_alt)
  then have "used q + unat n \<le> cap q" using used_le_cap [OF assms(1,2)] by simp
  then have c: "I1 (bq_push q n)" by (rule I1_push [OF assms(1)])
  have "unat k \<le> used q"
    using assms(4) pop_len_nat [OF assms(1,2)] by (simp add: word_le_nat_alt)
  then have d: "I1 (bq_pop q k)" by (rule I1_pop [OF assms(1,2)])
  show ?thesis using a b c d assms(2) by (simp add: bq_pushbuf_eq bq_popbuf_eq)
qed

text \<open>
  One byte pushed and two bytes popped on the queue whose cursors lie on both
  sides of the wrap.
\<close>

theorem no_overrun_and_I1_kept_witness:
  "bq_wf \<lparr>head = 18446744073709551614, tail = 1, mask_bq = 3, cap_lg2 = 2, data = 4096\<rparr>
   \<and> I1 \<lparr>head = 18446744073709551614, tail = 1, mask_bq = 3, cap_lg2 = 2, data = 4096\<rparr>
   \<and> (1 :: size_t) \<le> push_len \<lparr>head = 18446744073709551614, tail = 1, mask_bq = 3, cap_lg2 = 2, data = 4096\<rparr>
   \<and> (2 :: size_t) \<le> pop_len \<lparr>head = 18446744073709551614, tail = 1, mask_bq = 3, cap_lg2 = 2, data = 4096\<rparr>
   \<and> I1 (bq_push \<lparr>head = 18446744073709551614, tail = 1, mask_bq = 3, cap_lg2 = 2, data = 4096\<rparr> 1)
   \<and> I1 (bq_pop \<lparr>head = 18446744073709551614, tail = 1, mask_bq = 3, cap_lg2 = 2, data = 4096\<rparr> 2)"
  using no_overrun_and_I1_kept [of "\<lparr>head = 18446744073709551614, tail = 1, mask_bq = 3, cap_lg2 = 2, data = 4096\<rparr>" 1 2]
  by (simp add: bq_wf_def I1_def capacity_def push_len_eq pop_len_eq)

text \<open>
  Claim C5 says that a queue made from a null pointer or a zero length reports
  length 0 from \<^verbatim>\<open>bq_pushbuf\<close>. The struct that \<^verbatim>\<open>bq_make\<close> returns there has
  \<open>mask = 0\<close>, so \<^verbatim>\<open>bq_pushbuf\<close> computes \<open>mask + 1 - 0 = 1\<close>.
\<close>

theorem null_make_pushbuf_reports_one: "push_len (bq_make 0 16) = 1 \<and> push_len (bq_make 4096 0) = 1"
  by (simp add: bq_make_def bq_zero_def push_len_eq capacity_def)

text \<open>
  Claim C5, amended. A queue made from a null pointer or a zero length is the
  all-zero struct: its data pointer is null and its capacity \<open>mask + 1\<close> is 1. On it
  \<^verbatim>\<open>bq_popbuf\<close> reports length 0 and \<^verbatim>\<open>bq_pushbuf\<close> reports length 1 with a null
  pointer, and both calls leave the struct as it is.
\<close>

theorem null_make_is_zero_struct:
  assumes "buf = 0 \<or> L = 0"
  shows "bq_make buf L = bq_zero
       \<and> capacity (bq_make buf L) = 1
       \<and> data (bq_make buf L) = 0
       \<and> pop_len (bq_make buf L) = 0
       \<and> push_len (bq_make buf L) = 1
       \<and> push_ptr (bq_make buf L) = 0
       \<and> fst (bq_popbuf (bq_make buf L)) = bq_make buf L
       \<and> fst (bq_pushbuf (bq_make buf L)) = bq_make buf L"
  using assms
  by (simp add: bq_make_null bq_zero_def pop_len_eq push_len_eq capacity_def push_ptr_def
      bq_pushbuf_def bq_popbuf_def Let_def)

text \<open>
  A null buffer with length 16.
\<close>

theorem null_make_is_zero_struct_witness:
  "((0 :: addr) = 0 \<or> (16 :: size_t) = 0)
   \<and> pop_len (bq_make 0 16) = 0 \<and> push_len (bq_make 0 16) = 1 \<and> push_ptr (bq_make 0 16) = 0"
proof -
  have h: "(0 :: addr) = 0 \<or> (16 :: size_t) = 0" by simp
  show ?thesis using h null_make_is_zero_struct [OF h] by blast
qed

text \<open>
  Claim C6 says that for length 0 the constructed capacity, \<open>mask + 1\<close> or
  \<open>2 ^ cap_lg2\<close>, is 0. Both are 1 in the all-zero struct.
\<close>

theorem zero_length_capacity_is_one:
  "capacity (bq_make 4096 0) = 1 \<and> (2::nat) ^ unat (cap_lg2 (bq_make 4096 0)) = 1
   \<and> capacity (bq_make 4096 0) \<noteq> 0"
  by (simp add: bq_make_def bq_zero_def capacity_def)

text \<open>
  Claim C6, amended. For a non-null buffer and a length \<open>L\<close> of at least 1,
  \<^verbatim>\<open>bq_make\<close> gives a queue whose capacity \<open>mask + 1 = 2 ^ cap_lg2\<close> is the largest power
  of two that is at most \<open>L\<close>: it is at most \<open>L\<close>, twice it exceeds \<open>L\<close>, and every
  power of two that is at most \<open>L\<close> is at most the capacity. For length 0 the result is
  the all-zero struct, whose capacity \<open>mask + 1\<close> is 1.
\<close>

theorem make_capacity_largest_pow2:
  assumes "buf \<noteq> 0" and "L \<noteq> 0" and "2 ^ k \<le> unat L"
  shows "unat (cap_lg2 (bq_make buf L)) < 64
       \<and> capacity (bq_make buf L) = 2 ^ unat (cap_lg2 (bq_make buf L))
       \<and> mask_bq (bq_make buf L) + 1 = capacity (bq_make buf L)
       \<and> capacity (bq_make buf L) \<le> L
       \<and> unat L < 2 * unat (capacity (bq_make buf L))
       \<and> 2 ^ k \<le> unat (capacity (bq_make buf L))
       \<and> bq_make buf 0 = bq_zero
       \<and> capacity (bq_make buf 0) = 1"
proof -
  let ?q = "bq_make buf L"
  have wf: "bq_wf ?q" by (rule bq_make_wf(1) [OF assms(1,2)])
  have le: "cap ?q \<le> unat L" and lt: "unat L < 2 * cap ?q"
    by (rule bq_make_wf(5,6) [OF assms(1,2)])+
  have "(2::nat) ^ k < 2 ^ Suc (unat (cap_lg2 ?q))"
    using assms(3) lt by (simp add: cap_def)
  then have "k < Suc (unat (cap_lg2 ?q))"
    using power_less_imp_less_exp [of "2 :: nat" k "Suc (unat (cap_lg2 ?q))"] by simp
  then have "k \<le> unat (cap_lg2 ?q)" by simp
  then have big: "2 ^ k \<le> cap ?q" by (simp add: cap_def)
  show ?thesis
    using wf le lt big
    by (simp add: wf_capacity [OF wf] unat_capacity [OF wf, symmetric] word_le_nat_alt
        bq_make_null bq_zero_def capacity_def bq_wf_def)
qed

text \<open>
  A buffer of 1000 bytes gives capacity 512; \<open>2 ^ 9\<close> is a power of two below 1000.
\<close>

theorem make_capacity_largest_pow2_witness:
  "(4096 :: addr) \<noteq> 0 \<and> (1000 :: size_t) \<noteq> 0 \<and> (2 :: nat) ^ 9 \<le> unat (1000 :: size_t)
   \<and> capacity (bq_make 4096 1000) = 512 \<and> cap_lg2 (bq_make 4096 1000) = 9
   \<and> capacity (bq_make 4096 0) = 1"
  using make_capacity_largest_pow2 [of 4096 1000 9] by (simp add: bq_make_def capacity_def)

text \<open>
  Claim C7. Right after \<^verbatim>\<open>bq_make\<close> on a non-null buffer of non-zero length both
  cursors are 0, \<^verbatim>\<open>bq_popbuf\<close> reports length 0 and \<^verbatim>\<open>bq_pushbuf\<close> reports the whole
  capacity.
\<close>

theorem fresh_queue_lengths:
  assumes "buf \<noteq> 0" and "L \<noteq> 0"
  shows "head (bq_make buf L) = 0 \<and> tail (bq_make buf L) = 0
       \<and> pop_len (bq_make buf L) = 0
       \<and> push_len (bq_make buf L) = capacity (bq_make buf L)"
  using bq_make_wf(2,3) [OF assms] by (simp add: pop_len_eq push_len_eq)

text \<open>
  A buffer of 1000 bytes: nothing to read, 512 bytes to write.
\<close>

theorem fresh_queue_lengths_witness:
  "(4096 :: addr) \<noteq> 0 \<and> (1000 :: size_t) \<noteq> 0
   \<and> pop_len (bq_make 4096 1000) = 0 \<and> push_len (bq_make 4096 1000) = 512"
  using fresh_queue_lengths [of 4096 1000] by (simp add: bq_make_def capacity_def)

text \<open>
  Claim C8. Start from any well-formed queue that satisfies I1, whatever the
  values of its cursors (so also with \<open>head\<close> near \<open>2 ^ 64 - 1\<close> and \<open>tail\<close> beyond the
  wrap), the bytes it holds counting as produced before. After any run that keeps the
  contract the bytes consumed are a prefix of the bytes produced, the bytes not yet
  consumed are as many as the queue holds, I1 holds, and the lengths of
  \<^verbatim>\<open>bq_pushbuf\<close> and \<^verbatim>\<open>bq_popbuf\<close> are the smaller of the free space, or of the
  bytes held, and the distance from the offset to the end of the storage.
\<close>

theorem wraparound_conservation:
  assumes "bq_wf q" and "I1 q" and "run evs (init q m) = Some s"
  shows "prefix (consumed s) (produced s)
       \<and> length (produced s) = length (consumed s) + unat (tail (queue s) - head (queue s))
       \<and> I1 (queue s)
       \<and> push_len (queue s) =
           min (capacity (queue s) - (tail (queue s) - head (queue s)))
               (capacity (queue s) - (tail (queue s) AND mask_bq (queue s)))
       \<and> pop_len (queue s) =
           min (tail (queue s) - head (queue s))
               (capacity (queue s) - (head (queue s) AND mask_bq (queue s)))"
proof -
  have "sys_inv (init q m)" by (rule inv_init [OF assms(1,2)])
  then have i: "sys_inv s" using assms(3) by (rule inv_run)
  then have wf: "bq_wf (queue s)" and i1: "I1 (queue s)" by (simp_all add: sys_inv_def)
  show ?thesis
    using inv_prefix [OF i] inv_used_length [OF i] i1 push_len_min [OF wf i1] pop_len_min [OF wf i1]
    by simp
qed

text \<open>
  A queue of capacity 4 with \<open>head = 2 ^ 64 - 2\<close> and \<open>tail = 2 ^ 64 - 1\<close> holding
  the byte 7. The producer commits one byte, which takes \<open>tail\<close> to 0, then two more;
  the consumer commits two bytes, which takes \<open>head\<close> to 0, then two more.
\<close>

theorem wraparound_conservation_witness:
  "\<exists>s. bq_wf \<lparr>head = 18446744073709551614, tail = 18446744073709551615, mask_bq = 3, cap_lg2 = 2, data = 4096\<rparr>
     \<and> I1 \<lparr>head = 18446744073709551614, tail = 18446744073709551615, mask_bq = 3, cap_lg2 = 2, data = 4096\<rparr>
     \<and> run [PushBuf, Write 0 8, Push 1, PushBuf, Write 0 9, Write 1 10, Push 2,
             PopBuf, Pop 2, PopBuf, Pop 2]
            (init \<lparr>head = 18446744073709551614, tail = 18446744073709551615, mask_bq = 3, cap_lg2 = 2, data = 4096\<rparr>
               ((\<lambda>_. 0)(4098 := 7))) = Some s
     \<and> head (queue s) = 2 \<and> tail (queue s) = 2
     \<and> produced s = [7, 8, 9, 10] \<and> consumed s = [7, 8, 9, 10]
     \<and> prefix (consumed s) (produced s)"
proof -
  let ?q = "\<lparr>head = 18446744073709551614, tail = 18446744073709551615, mask_bq = 3, cap_lg2 = 2, data = (4096 :: addr)\<rparr>"
  let ?r = "run [PushBuf, Write 0 8, Push 1, PushBuf, Write 0 9, Write 1 10, Push 2,
             PopBuf, Pop 2, PopBuf, Pop 2] (init ?q ((\<lambda>_. 0)(4098 := 7)))"
  have wf: "bq_wf ?q" and i1: "I1 ?q" by (simp_all add: bq_wf_def I1_def capacity_def)
  have "map_option (\<lambda>s. (head (queue s), tail (queue s), produced s, consumed s)) ?r
        = Some (2, 2, [7, 8, 9, 10], [7, 8, 9, 10])"
    by (simp add: init_def contents_def used_def rd_off_def cap_def bq_pushbuf_def bq_popbuf_def
        bq_push_def bq_pop_def slice_def upt_rec)
  then obtain s where s: "?r = Some s" "head (queue s) = 2" "tail (queue s) = 2"
      "produced s = [7, 8, 9, 10]" "consumed s = [7, 8, 9, 10]"
    by auto
  have "prefix (consumed s) (produced s)"
    using wraparound_conservation [OF wf i1 s(1)] by simp
  then show ?thesis using s wf i1 by simp
qed

text \<open>
  Claim C9. \<^verbatim>\<open>bq_popbuf\<close> and \<^verbatim>\<open>bq_pushbuf\<close> leave the queue as it is, every
  field of it; in a run the only effect of either call is that its thread holds the
  returned pointer and length, and the memory is untouched.
\<close>

theorem buf_calls_are_queries:
  "fst (bq_popbuf q) = q \<and> fst (bq_pushbuf q) = q
   \<and> step PopBuf s = Some (s\<lparr>rbuf := Some (pop_ptr (queue s), pop_len (queue s))\<rparr>)
   \<and> step PushBuf s = Some (s\<lparr>wbuf := Some (push_ptr (queue s), push_len (queue s))\<rparr>)"
  by (simp add: bq_pushbuf_eq bq_popbuf_eq)

text \<open>
  Claim C10. For a well-formed queue that satisfies I1, \<^verbatim>\<open>bq_pushbuf\<close> stores 0
  exactly when the queue is full, \<open>tail - head = capacity\<close>, and \<^verbatim>\<open>bq_popbuf\<close> stores 0
  exactly when it is empty, \<open>tail = head\<close>; when it is neither, both lengths are
  positive.
\<close>

theorem zero_length_iff_full_or_empty:
  assumes "bq_wf q" and "I1 q"
  shows "(push_len q = 0 \<longleftrightarrow> tail q - head q = capacity q)
       \<and> (pop_len q = 0 \<longleftrightarrow> tail q = head q)
       \<and> (tail q - head q \<noteq> capacity q \<and> tail q \<noteq> head q \<longrightarrow> 0 < push_len q \<and> 0 < pop_len q)"
  by (simp add: push_len_zero_iff [OF assms] pop_len_zero_iff [OF assms] word_greater_zero_iff)

text \<open>
  Three bytes in a queue of capacity 4: neither full nor empty.
\<close>

theorem zero_length_iff_full_or_empty_witness:
  "bq_wf \<lparr>head = 18446744073709551614, tail = 1, mask_bq = 3, cap_lg2 = 2, data = 4096\<rparr>
   \<and> I1 \<lparr>head = 18446744073709551614, tail = 1, mask_bq = 3, cap_lg2 = 2, data = 4096\<rparr>
   \<and> (1 :: size_t) - 18446744073709551614 \<noteq> 4 \<and> (1 :: size_t) \<noteq> 18446744073709551614
   \<and> 0 < push_len \<lparr>head = 18446744073709551614, tail = 1, mask_bq = 3, cap_lg2 = 2, data = 4096\<rparr>
   \<and> 0 < pop_len \<lparr>head = 18446744073709551614, tail = 1, mask_bq = 3, cap_lg2 = 2, data = 4096\<rparr>"
  using zero_length_iff_full_or_empty [of "\<lparr>head = 18446744073709551614, tail = 1, mask_bq = 3, cap_lg2 = 2, data = 4096\<rparr>"]
  by (simp add: bq_wf_def I1_def capacity_def)

end
